theory Spec2Isabelle
  imports Main
begin

section \<open>The Starlark macro writer of \<open>writer/starlark.go\<close>\<close>

text \<open>
  The Go type \<open>StarlarkWriter\<close> writes Starlark macros to a \<open>bufio.Writer\<close>. Its methods
  mutate the receiver and return an error; here every method takes the writer and returns
  the error (\<open>None\<close> for Go's \<open>nil\<close>) together with the writer as the call leaves it, also
  when the call fails. Go strings are byte sequences, modelled as \<open>string\<close>.
\<close>

subsection \<open>Errors\<close>

datatype error =
    NestedMacros \<comment> \<open>\<open>errors.New("nested macros are not allowed")\<close>\<close>
  | NoCurrentMacro \<comment> \<open>\<open>errors.New("no current macro")\<close>\<close>
  | NoCurrentDirectory \<comment> \<open>\<open>errors.New("no current directory")\<close>\<close>
  | InvalidIdentifier string \<comment> \<open>\<open>fmt.Errorf("invalid Starlark identifier: %s", ident)\<close>\<close>
  | EncodeError string \<comment> \<open>an error returned by \<open>Marshal\<close>\<close>
  | WriteFailed \<comment> \<open>an error returned by the \<open>bufio.Writer\<close>\<close>
  | RuntimePanic \<comment> \<open>a run-time panic: index or slice bounds out of range\<close>

subsection \<open>Identifiers\<close>

text \<open>
  \<open>validIdentPattern\<close> is the regular expression \<^verbatim>\<open>^[a-zA-Z_]\w*$\<close>. In Go's syntax
  \<^verbatim>\<open>\w\<close> is the ASCII class \<^verbatim>\<open>[0-9A-Za-z_]\<close>, and without the multi-line flag \<^verbatim>\<open>^\<close> and
  \<^verbatim>\<open>$\<close> match only at the two ends of the text. A character range is a range of codes.
\<close>

definition in_range :: "char \<Rightarrow> char \<Rightarrow> char \<Rightarrow> bool" where
  "in_range lo hi c = ((of_char lo :: nat) \<le> of_char c \<and> (of_char c :: nat) \<le> of_char hi)"

definition ident_start :: "char \<Rightarrow> bool" where
  \<comment> \<open>\<^verbatim>\<open>[a-zA-Z_]\<close>\<close>
  "ident_start c = (in_range CHR ''a'' CHR ''z'' c \<or> in_range CHR ''A'' CHR ''Z'' c \<or> c = CHR ''_'')"

definition word_char :: "char \<Rightarrow> bool" where
  \<comment> \<open>\<^verbatim>\<open>\w\<close>\<close>
  "word_char c = (in_range CHR ''0'' CHR ''9'' c \<or> in_range CHR ''A'' CHR ''Z'' c
                  \<or> in_range CHR ''a'' CHR ''z'' c \<or> c = CHR ''_'')"

fun word_chars_to_end :: "string \<Rightarrow> bool" where
  \<comment> \<open>\<^verbatim>\<open>\w*$\<close>: word characters up to the end of the text\<close>
  "word_chars_to_end [] = True"
| "word_chars_to_end (c # cs) = (word_char c \<and> word_chars_to_end cs)"

fun MatchString :: "string \<Rightarrow> bool" where
  \<comment> \<open>\<open>validIdentPattern.MatchString\<close>\<close>
  "MatchString [] = False"
| "MatchString (c # cs) = (ident_start c \<and> word_chars_to_end cs)"

definition starlarkReserved :: "string set" where
  "starlarkReserved = {
     ''if'', ''elif'', ''else'', ''assert'',
     ''and'', ''or'', ''not'', ''in'', ''is'', ''as'',
     ''for'', ''while'', ''break'', ''continue'', ''return'', ''yield'', ''pass'',
     ''load'', ''import'', ''nonlocal'', ''global'',
     ''def'', ''lambda'', ''class'',
     ''del'', ''raise'', ''except'', ''try'', ''finally'', ''from'', ''with''}"

definition identName :: "string \<Rightarrow> error + string" where
  "identName ident =
     (if \<not> MatchString ident then Inl (InvalidIdentifier ident)
      else if ident \<in> starlarkReserved then Inr (ident @ ''_'')
      else Inr ident)"

text \<open>
  The identifier grammar in the words of the specification: non-empty, the first
  character alphabetic or an underscore, the others alphanumeric or an underscore.
\<close>

definition alphabetic :: "char \<Rightarrow> bool" where
  "alphabetic c = (in_range CHR ''a'' CHR ''z'' c \<or> in_range CHR ''A'' CHR ''Z'' c)"

definition alphanumeric :: "char \<Rightarrow> bool" where
  "alphanumeric c = (alphabetic c \<or> in_range CHR ''0'' CHR ''9'' c)"

definition identifier_grammar :: "string \<Rightarrow> bool" where
  "identifier_grammar s =
     (s \<noteq> [] \<and> (alphabetic (hd s) \<or> hd s = CHR ''_'')
      \<and> (\<forall>c \<in> set (tl s). alphanumeric c \<or> c = CHR ''_''))"

subsection \<open>The output stream\<close>

text \<open>
  The \<open>bufio.Writer\<close> belongs to Go's library. It is modelled by the bytes it has taken
  so far and by the number of operations its destination still completes (\<open>None\<close>: it
  never fails). Once an operation has failed every later one fails, as the \<open>bufio.Writer\<close>
  keeps its first error.
\<close>

record bufio =
  accepted :: string
  remaining :: "nat option"

definition WriteString :: "string \<Rightarrow> bufio \<Rightarrow> error option \<times> bufio" where
  "WriteString s b =
     (case remaining b of
        None \<Rightarrow> (None, b\<lparr>accepted := accepted b @ s\<rparr>)
      | Some 0 \<Rightarrow> (Some WriteFailed, b)
      | Some (Suc n) \<Rightarrow> (None, b\<lparr>accepted := accepted b @ s, remaining := Some n\<rparr>))"

definition Flush :: "bufio \<Rightarrow> error option \<times> bufio" where
  "Flush b =
     (case remaining b of
        None \<Rightarrow> (None, b)
      | Some 0 \<Rightarrow> (Some WriteFailed, b)
      | Some (Suc n) \<Rightarrow> (None, b\<lparr>remaining := Some n\<rparr>))"

subsection \<open>The writer\<close>

record StarlarkWriter =
  w :: bufio
  buf :: "string list"
  currentMacro :: string
  dirStack :: "string list"

definition NewStarlarkWriter :: "bufio \<Rightarrow> StarlarkWriter" where
  "NewStarlarkWriter b = \<lparr>w = b, buf = [], currentMacro = [], dirStack = []\<rparr>"

definition indentf :: "string \<Rightarrow> string" where
  \<comment> \<open>\<open>fmt.Sprintf("    "+format, vals...)\<close>, applied to the formatted text\<close>
  "indentf s = ''    '' @ s"

definition writeString :: "string \<Rightarrow> StarlarkWriter \<Rightarrow> error option \<times> StarlarkWriter" where
  "writeString s sw = (case WriteString s (w sw) of (e, b) \<Rightarrow> (e, sw\<lparr>w := b\<rparr>))"

fun writeEntries :: "string list \<Rightarrow> StarlarkWriter \<Rightarrow> error option \<times> StarlarkWriter" where
  \<comment> \<open>the loop of \<open>writeBuffered\<close> over \<open>sw.buf\<close>\<close>
  "writeEntries [] sw = (None, sw)"
| "writeEntries (entry # rest) sw =
     (case writeString entry sw of
        (Some e, sw1) \<Rightarrow> (Some e, sw1)
      | (None, sw1) \<Rightarrow> writeEntries rest sw1)"

definition writeBuffered :: "StarlarkWriter \<Rightarrow> error option \<times> StarlarkWriter" where
  "writeBuffered sw =
     (case writeEntries (buf sw) sw of
        (Some e, sw1) \<Rightarrow> (Some e, sw1)
      | (None, sw1) \<Rightarrow> (None, sw1\<lparr>buf := []\<rparr>))"

definition BeginMacro :: "string \<Rightarrow> StarlarkWriter \<Rightarrow> error option \<times> StarlarkWriter" where
  "BeginMacro name sw =
     (if currentMacro sw \<noteq> [] then (Some NestedMacros, sw)
      else case identName name of
        Inl e \<Rightarrow> (Some e, sw)
      | Inr n \<Rightarrow> (None, sw\<lparr>buf := buf sw @ [''def '' @ n @ ''(ctx):\<newline>''],
                            currentMacro := n\<rparr>))"

definition EndMacro :: "StarlarkWriter \<Rightarrow> error option \<times> StarlarkWriter" where
  "EndMacro sw =
     (if currentMacro sw = [] then (Some NoCurrentMacro, sw)
      else case writeBuffered sw of
        (Some e, sw1) \<Rightarrow> (Some e, sw1)
      | (None, sw1) \<Rightarrow>
          (case writeString (indentf ''return ctx\<newline>'') sw1 of
             (Some e, sw2) \<Rightarrow> (Some e, sw2)
           | (None, sw2) \<Rightarrow>
               (let sw3 = sw2\<lparr>currentMacro := []\<rparr> in
                case Flush (w sw3) of (e, b) \<Rightarrow> (e, sw3\<lparr>w := b\<rparr>))))"

text \<open>
  \<open>pushDirString\<close> formats the path with the verb \<^verbatim>\<open>%#v\<close>, Go's quoted syntax of a
  string, which is the work of Go's library: the quoting function is the parameter \<open>q\<close>.
\<close>

definition pushDirString :: "(string \<Rightarrow> string) \<Rightarrow> string \<Rightarrow> string" where
  "pushDirString q path = indentf (''ctx = ctx.push_directory(ctx, '' @ q path @ '')\<newline>'')"

definition PushDirectory ::
  "(string \<Rightarrow> string) \<Rightarrow> string \<Rightarrow> StarlarkWriter \<Rightarrow> error option \<times> StarlarkWriter" where
  "PushDirectory q path sw =
     (if currentMacro sw = [] then (Some NoCurrentMacro, sw)
      else (None, sw\<lparr>dirStack := dirStack sw @ [path],
                      buf := buf sw @ [pushDirString q path]\<rparr>))"

definition pop :: "string list \<Rightarrow> (string \<times> string list) option" where
  \<comment> \<open>\<open>None\<close>: the index expression panics on an empty slice\<close>
  "pop s = (if length s = 0 then None else Some (s ! (length s - 1), take (length s - 1) s))"

definition PopDirectory ::
  "(string \<Rightarrow> string) \<Rightarrow> StarlarkWriter \<Rightarrow> (string \<times> error option) \<times> StarlarkWriter" where
  "PopDirectory q sw =
     (if currentMacro sw = [] then (([], Some NoCurrentMacro), sw)
      else if length (dirStack sw) = 0 then (([], Some NoCurrentDirectory), sw)
      else case pop (dirStack sw) of
        None \<Rightarrow> (([], Some RuntimePanic), sw)
      | Some (path, rest) \<Rightarrow>
          (let sw1 = sw\<lparr>dirStack := rest\<rparr> in
           if length (buf sw1) > 0 \<and> buf sw1 ! (length (buf sw1) - 1) = pushDirString q path
           then ((path, None), sw1\<lparr>buf := take (length (buf sw1) - 1) (buf sw1)\<rparr>)
           else case writeString (indentf ''ctx = ctx.pop_directory(ctx)\<newline>'') sw1 of
                  (e, sw2) \<Rightarrow> ((path, e), sw2)))"

text \<open>
  \<open>Marshal\<close>, the literal encoder, is defined in another file of the package: it is the
  parameter \<open>m\<close>. The values it is given are Go values of any type.
\<close>

datatype gvalue =
    GoString string
  | GoStrings "string list" \<comment> \<open>a \<open>[]string\<close>\<close>
  | GoArgumentLiterals "string list" \<comment> \<open>an \<open>ArgumentLiterals\<close>\<close>
  | GoOther nat \<comment> \<open>any other value\<close>

fun writeArgs ::
  "(gvalue \<Rightarrow> error + string) \<Rightarrow> gvalue list \<Rightarrow> StarlarkWriter \<Rightarrow> error option \<times> StarlarkWriter" where
  \<comment> \<open>the loop of \<open>WriteCommand\<close> over \<open>args\<close>\<close>
  "writeArgs m [] sw = (None, sw)"
| "writeArgs m (arg # rest) sw =
     (case m arg of
        Inl e \<Rightarrow> (Some e, sw)
      | Inr val \<Rightarrow>
          (case writeString ('', '' @ val) sw of
             (Some e, sw1) \<Rightarrow> (Some e, sw1)
           | (None, sw1) \<Rightarrow> writeArgs m rest sw1))"

definition WriteCommand ::
  "(gvalue \<Rightarrow> error + string) \<Rightarrow> string \<Rightarrow> gvalue list \<Rightarrow> StarlarkWriter
     \<Rightarrow> error option \<times> StarlarkWriter" where
  "WriteCommand m cmd args sw =
     (if currentMacro sw = [] then (Some NoCurrentMacro, sw)
      else case identName cmd of
        Inl e \<Rightarrow> (Some e, sw)
      | Inr c \<Rightarrow>
          (case writeBuffered sw of
             (Some e, sw1) \<Rightarrow> (Some e, sw1)
           | (None, sw1) \<Rightarrow>
               (case writeString (indentf (''ctx.'' @ c @ ''(ctx'')) sw1 of
                  (Some e, sw2) \<Rightarrow> (Some e, sw2)
                | (None, sw2) \<Rightarrow>
                    (case writeArgs m args sw2 of
                       (Some e, sw3) \<Rightarrow> (Some e, sw3)
                     | (None, sw3) \<Rightarrow> writeString '')\<newline>'' sw3))))"

definition MarshalStarlark :: "(gvalue \<Rightarrow> error + string) \<Rightarrow> string list \<Rightarrow> error + string" where
  \<comment> \<open>\<open>b[1 : len(b)-1]\<close> panics unless \<open>1 \<le> len(b)-1\<close>\<close>
  "MarshalStarlark m al =
     (case m (GoStrings al) of
        Inl e \<Rightarrow> Inl e
      | Inr b \<Rightarrow> if length b < 2 then Inl RuntimePanic
                 else Inr (take (length b - 1 - 1) (drop 1 b)))"

subsection \<open>Sequences of calls\<close>

datatype call =
    CallBeginMacro string
  | CallEndMacro
  | CallPushDirectory string
  | CallPopDirectory
  | CallWriteCommand string "gvalue list"

fun step ::
  "(string \<Rightarrow> string) \<Rightarrow> (gvalue \<Rightarrow> error + string) \<Rightarrow> call \<Rightarrow> StarlarkWriter
     \<Rightarrow> error option \<times> StarlarkWriter" where
  "step q m (CallBeginMacro name) sw = BeginMacro name sw"
| "step q m CallEndMacro sw = EndMacro sw"
| "step q m (CallPushDirectory path) sw = PushDirectory q path sw"
| "step q m CallPopDirectory sw = (case PopDirectory q sw of ((path, e), sw1) \<Rightarrow> (e, sw1))"
| "step q m (CallWriteCommand cmd args) sw = WriteCommand m cmd args sw"

text \<open>A driver that stops at the first error, and one that goes on whatever a call returns.\<close>

fun run ::
  "(string \<Rightarrow> string) \<Rightarrow> (gvalue \<Rightarrow> error + string) \<Rightarrow> call list \<Rightarrow> StarlarkWriter
     \<Rightarrow> error + StarlarkWriter" where
  "run q m [] sw = Inr sw"
| "run q m (c # cs) sw =
     (case step q m c sw of
        (Some e, sw1) \<Rightarrow> Inl e
      | (None, sw1) \<Rightarrow> run q m cs sw1)"

fun drive ::
  "(string \<Rightarrow> string) \<Rightarrow> (gvalue \<Rightarrow> error + string) \<Rightarrow> call list \<Rightarrow> StarlarkWriter
     \<Rightarrow> StarlarkWriter" where
  "drive q m [] sw = sw"
| "drive q m (c # cs) sw = drive q m cs (snd (step q m c sw))"

subsection \<open>Nested directories\<close>

text \<open>
  The calls that a driver makes inside a macro are properly nested: a block is empty, or a
  command followed by a block, or a directory (entered, a block inside it, left) followed
  by a block. \<open>calls\<close> gives the call sequence of a block, in which every
  \<open>PushDirectory\<close> has its matching \<open>PopDirectory\<close>.
\<close>

datatype block =
    Done
  | Command string "gvalue list" block
  | Directory string block block

fun calls :: "block \<Rightarrow> call list" where
  "calls Done = []"
| "calls (Command cmd args rest) = CallWriteCommand cmd args # calls rest"
| "calls (Directory path inner rest) =
     CallPushDirectory path # calls inner @ CallPopDirectory # calls rest"

fun has_command :: "block \<Rightarrow> bool" where
  "has_command Done = False"
| "has_command (Command cmd args rest) = True"
| "has_command (Directory path inner rest) = (has_command inner \<or> has_command rest)"

fun commands :: "block \<Rightarrow> (string \<times> gvalue list) list" where
  "commands Done = []"
| "commands (Command cmd args rest) = (cmd, args) # commands rest"
| "commands (Directory path inner rest) = commands inner @ commands rest"

text \<open>The statements as they stand in the output.\<close>

definition exitStatement :: string where
  "exitStatement = indentf ''ctx = ctx.pop_directory(ctx)\<newline>''"

definition commandStatement :: "(gvalue \<Rightarrow> error + string) \<Rightarrow> string \<Rightarrow> gvalue list \<Rightarrow> string" where
  \<comment> \<open>the text of a command whose name is valid and whose arguments are all encoded\<close>
  "commandStatement m cmd args =
     (case identName cmd of
        Inl e \<Rightarrow> []
      | Inr c \<Rightarrow> indentf (''ctx.'' @ c @ ''(ctx'')
                 @ concat (map (\<lambda>arg. case m arg of Inl e \<Rightarrow> [] | Inr val \<Rightarrow> '', '' @ val) args)
                 @ '')\<newline>'')"

fun render :: "(string \<Rightarrow> string) \<Rightarrow> (gvalue \<Rightarrow> error + string) \<Rightarrow> block \<Rightarrow> string" where
  \<comment> \<open>the text expected of a block: a directory without a command inside leaves nothing\<close>
  "render q m Done = []"
| "render q m (Command cmd args rest) = commandStatement m cmd args @ render q m rest"
| "render q m (Directory path inner rest) =
     (if has_command inner then pushDirString q path @ render q m inner @ exitStatement else [])
     @ render q m rest"

subsection \<open>Entries of the stack that are older than the open macro\<close>

text \<open>
  \<open>tracked\<close> drives the writer as \<open>drive\<close> does and counts beside it the entries of the
  directory stack that were there when the macro now open was begun and are there still:
  a \<open>BeginMacro\<close> that succeeds sets the count to the height of the stack, and the count
  never exceeds the height of the stack afterwards.
\<close>

fun is_begin :: "call \<Rightarrow> bool" where
  "is_begin (CallBeginMacro name) = True"
| "is_begin c = False"

fun tracked ::
  "(string \<Rightarrow> string) \<Rightarrow> (gvalue \<Rightarrow> error + string) \<Rightarrow> call list \<Rightarrow> StarlarkWriter \<times> nat
     \<Rightarrow> StarlarkWriter \<times> nat" where
  "tracked q m [] st = st"
| "tracked q m (c # cs) (sw, older) =
     (case step q m c sw of
        (e, sw1) \<Rightarrow>
          tracked q m cs
            (sw1, if is_begin c \<and> e = None then length (dirStack sw1)
                  else min older (length (dirStack sw1))))"

text \<open>
  The shape of the pending buffer, with \<open>older\<close> the count that \<open>tracked\<close> keeps: with no
  macro open the buffer is empty; with a macro open it holds either the header of the
  macro and the enter statements of all the entries above the older ones, or the enter
  statements of a suffix of these entries and nothing else.
\<close>

definition stack_inv :: "(string \<Rightarrow> string) \<Rightarrow> StarlarkWriter \<Rightarrow> nat \<Rightarrow> bool" where
  "stack_inv q sw older =
     (older \<le> length (dirStack sw)
      \<and> (currentMacro sw = [] \<longrightarrow> buf sw = [])
      \<and> (currentMacro sw \<noteq> [] \<longrightarrow>
            buf sw = (''def '' @ currentMacro sw @ ''(ctx):\<newline>'')
                       # map (pushDirString q) (drop older (dirStack sw))
            \<or> (\<exists>k. older \<le> k \<and> k \<le> length (dirStack sw)
                   \<and> buf sw = map (pushDirString q) (drop k (dirStack sw)))))"

subsection \<open>Streams and encoders for concrete runs\<close>

definition takes :: "nat \<Rightarrow> bufio \<Rightarrow> bool" where
  \<comment> \<open>the destination completes the next \<open>n\<close> operations\<close>
  "takes n b = (case remaining b of None \<Rightarrow> True | Some k \<Rightarrow> n \<le> k)"

definition emptyStream :: bufio where
  \<comment> \<open>nothing written yet, a destination that never fails\<close>
  "emptyStream = \<lparr>accepted = [], remaining = None\<rparr>"

definition plainQuote :: "string \<Rightarrow> string" where
  \<comment> \<open>Go's \<^verbatim>\<open>%#v\<close> of a string of printable ASCII characters without quote or backslash\<close>
  "plainQuote s = ''\"'' @ s @ ''\"''"

fun plainMarshal :: "gvalue \<Rightarrow> error + string" where
  \<comment> \<open>an encoder for concrete runs: strings as \<open>plainQuote\<close> gives them, no other value\<close>
  "plainMarshal (GoString s) = Inr (plainQuote s)"
| "plainMarshal v = Inl (EncodeError ''unsupported value'')"

section \<open>The identifier sanitizer\<close>

lemma word_chars_to_end_iff:
  "word_chars_to_end cs \<longleftrightarrow> (\<forall>c \<in> set cs. alphanumeric c \<or> c = CHR ''_'')"
  by (induction cs) (auto simp: word_char_def alphanumeric_def alphabetic_def)

lemma MatchString_grammar: "MatchString s \<longleftrightarrow> identifier_grammar s"
  by (cases s)
     (auto simp: identifier_grammar_def ident_start_def alphabetic_def word_chars_to_end_iff)


text \<open>
  Claim C6. For every string: if it matches the identifier grammar and is not reserved,
  \<open>identName\<close> returns it unchanged; if it matches the grammar and is reserved, it returns
  the string with one underscore appended; if it does not match the grammar, it fails
  with the invalid-identifier error.
\<close>

theorem identName_sanitizes:
  "(identifier_grammar s \<and> s \<notin> starlarkReserved \<longrightarrow> identName s = Inr s)
   \<and> (identifier_grammar s \<and> s \<in> starlarkReserved \<longrightarrow> identName s = Inr (s @ ''_''))
   \<and> (\<not> identifier_grammar s \<longrightarrow> identName s = Inl (InvalidIdentifier s))"
  by (simp add: identName_def MatchString_grammar)

theorem identName_sanitizes_witness:
  "identName ''gen'' = Inr ''gen'' \<and> identName ''if'' = Inr ''if_''
   \<and> identName ''9x'' = Inl (InvalidIdentifier ''9x'')"
proof -
  have g1: "identifier_grammar ''gen''" "identifier_grammar ''if''" "\<not> identifier_grammar ''9x''"
    by (simp_all add: identifier_grammar_def alphabetic_def alphanumeric_def in_range_def)
  have g2: "''gen'' \<notin> starlarkReserved" "''if'' \<in> starlarkReserved"
    by (simp_all add: starlarkReserved_def)
  show ?thesis
    using identName_sanitizes [of "''gen''"] identName_sanitizes [of "''if''"]
      identName_sanitizes [of "''9x''"] g1 g2
    by simp
qed

section \<open>Writing to the stream\<close>

lemma pop_nonempty: "s \<noteq> [] \<Longrightarrow> pop s = Some (last s, butlast s)"
  by (simp add: pop_def last_conv_nth butlast_conv_take)

lemma writeString_frame:
  "writeString s sw = (e, sw') \<Longrightarrow>
   buf sw' = buf sw \<and> currentMacro sw' = currentMacro sw \<and> dirStack sw' = dirStack sw"
  by (auto simp: writeString_def split: prod.splits)

lemma writeString_ok:
  "writeString s sw = (None, sw') \<Longrightarrow> accepted (w sw') = accepted (w sw) @ s"
  by (auto simp: writeString_def WriteString_def split: prod.splits option.splits nat.splits)

lemma writeEntries_frame:
  "writeEntries es sw = (e, sw') \<Longrightarrow>
   buf sw' = buf sw \<and> currentMacro sw' = currentMacro sw \<and> dirStack sw' = dirStack sw"
proof (induction es arbitrary: sw)
  case Nil
  then show ?case by simp
next
  case (Cons x es)
  then show ?case
    by (auto split: prod.splits option.splits dest: writeString_frame)
qed

lemma writeEntries_ok:
  "writeEntries es sw = (None, sw') \<Longrightarrow> accepted (w sw') = accepted (w sw) @ concat es"
proof (induction es arbitrary: sw)
  case Nil
  then show ?case by simp
next
  case (Cons x es)
  then show ?case
    by (auto split: prod.splits option.splits dest: writeString_ok)
qed

lemma writeBuffered_frame:
  "writeBuffered sw = (e, sw') \<Longrightarrow>
   currentMacro sw' = currentMacro sw \<and> dirStack sw' = dirStack sw
   \<and> (buf sw' = buf sw \<or> buf sw' = [])"
  by (auto simp: writeBuffered_def split: prod.splits option.splits dest: writeEntries_frame)

lemma writeBuffered_ok:
  "writeBuffered sw = (None, sw') \<Longrightarrow>
   buf sw' = [] \<and> accepted (w sw') = accepted (w sw) @ concat (buf sw)"
  by (auto simp: writeBuffered_def split: prod.splits option.splits dest: writeEntries_ok)

lemma writeBuffered_failed: "writeBuffered sw = (Some e, sw') \<Longrightarrow> buf sw' = buf sw"
  by (auto simp: writeBuffered_def split: prod.splits option.splits dest: writeEntries_frame)

lemma EndMacro_frame: "dirStack (snd (EndMacro sw)) = dirStack sw"
proof (cases "currentMacro sw = []")
  case True
  then show ?thesis by (simp add: EndMacro_def)
next
  case False
  obtain e1 sw1 where b1: "writeBuffered sw = (e1, sw1)" by force
  obtain e2 sw2 where b2: "writeString (indentf ''return ctx\<newline>'') sw1 = (e2, sw2)" by force
  have "dirStack sw1 = dirStack sw" using writeBuffered_frame [OF b1] by simp
  moreover have "dirStack sw2 = dirStack sw1" using writeString_frame [OF b2] by simp
  ultimately show ?thesis
    using False b1 b2
    by (cases e1; cases e2) (simp_all add: EndMacro_def Let_def split: prod.splits)
qed

lemma EndMacro_ok:
  assumes "EndMacro sw = (None, sw')"
  shows "currentMacro sw \<noteq> [] \<and> currentMacro sw' = [] \<and> buf sw' = []
         \<and> dirStack sw' = dirStack sw
         \<and> accepted (w sw') = accepted (w sw) @ concat (buf sw) @ indentf ''return ctx\<newline>''"
proof -
  have op: "currentMacro sw \<noteq> []"
    using assms by (auto simp: EndMacro_def)
  obtain e1 sw1 where b1: "writeBuffered sw = (e1, sw1)" by force
  obtain e2 sw2 where b2: "writeString (indentf ''return ctx\<newline>'') sw1 = (e2, sw2)" by force
  have e1: "e1 = None"
    using assms op b1 by (cases e1) (simp_all add: EndMacro_def)
  have e2: "e2 = None"
    using assms op b1 b2 e1 by (cases e2) (simp_all add: EndMacro_def)
  obtain e3 b where b3: "Flush (w sw2) = (e3, b)" by force
  have sw': "sw' = sw2\<lparr>currentMacro := [], w := b\<rparr>"
    using assms op b1 b2 b3 e1 e2 by (simp add: EndMacro_def Let_def)
  have acc: "accepted b = accepted (w sw2)"
    using b3 by (auto simp: Flush_def split: option.splits nat.splits)
  have f1: "buf sw1 = [] \<and> accepted (w sw1) = accepted (w sw) @ concat (buf sw)"
    using writeBuffered_ok b1 e1 by simp
  have f2: "dirStack sw1 = dirStack sw"
    using writeBuffered_frame [OF b1] by simp
  have f3: "buf sw2 = buf sw1 \<and> dirStack sw2 = dirStack sw1"
    using writeString_frame [OF b2] by simp
  have f4: "accepted (w sw2) = accepted (w sw1) @ indentf ''return ctx\<newline>''"
    using writeString_ok b2 e2 by simp
  show ?thesis
    using op sw' acc f1 f2 f3 f4 by simp
qed

section \<open>Leaving a directory\<close>

text \<open>
  Claim C9. \<open>PopDirectory\<close> fails with the no-current-macro error whenever no macro is open,
  whatever the stack holds; it fails with the no-current-directory error when a macro is
  open and the stack is empty; and a call that succeeds returns the last entry of the
  stack, which it has removed.
\<close>

theorem PopDirectory_results:
  "(currentMacro sw = [] \<longrightarrow> PopDirectory q sw = (([], Some NoCurrentMacro), sw))
   \<and> (currentMacro sw \<noteq> [] \<and> dirStack sw = [] \<longrightarrow>
        PopDirectory q sw = (([], Some NoCurrentDirectory), sw))
   \<and> (\<forall>path sw'. PopDirectory q sw = ((path, None), sw') \<longrightarrow>
        dirStack sw \<noteq> [] \<and> path = last (dirStack sw) \<and> dirStack sw' = butlast (dirStack sw))"
  by (auto simp: PopDirectory_def pop_nonempty Let_def split: if_splits prod.splits
           dest: writeString_frame)


theorem PopDirectory_results_witness:
  "PopDirectory plainQuote (NewStarlarkWriter emptyStream)
     = (([], Some NoCurrentMacro), NewStarlarkWriter emptyStream)
   \<and> PopDirectory plainQuote (NewStarlarkWriter emptyStream\<lparr>currentMacro := ''gen''\<rparr>)
     = (([], Some NoCurrentDirectory), NewStarlarkWriter emptyStream\<lparr>currentMacro := ''gen''\<rparr>)
   \<and> PopDirectory plainQuote
        (NewStarlarkWriter emptyStream\<lparr>currentMacro := ''gen'', dirStack := [''lib'', ''Support'']\<rparr>)
     = ((''Support'', None),
        \<lparr>w = emptyStream\<lparr>accepted := exitStatement\<rparr>, buf = [], currentMacro = ''gen'',
         dirStack = [''lib'']\<rparr>)"
proof -
  let ?s3 = "NewStarlarkWriter emptyStream\<lparr>currentMacro := ''gen'', dirStack := [''lib'', ''Support'']\<rparr>"
  have e: "PopDirectory plainQuote ?s3
     = ((''Support'', None),
        \<lparr>w = emptyStream\<lparr>accepted := exitStatement\<rparr>, buf = [], currentMacro = ''gen'',
         dirStack = [''lib'']\<rparr>)"
    by (simp add: PopDirectory_def NewStarlarkWriter_def emptyStream_def pop_def writeString_def
        WriteString_def exitStatement_def)
  show ?thesis
    using PopDirectory_results [of "NewStarlarkWriter emptyStream" plainQuote]
      PopDirectory_results [of "NewStarlarkWriter emptyStream\<lparr>currentMacro := ''gen''\<rparr>" plainQuote]
      PopDirectory_results [of ?s3 plainQuote] e
    by (simp add: NewStarlarkWriter_def)
qed

section \<open>Argument literals\<close>

text \<open>
  Claim C10. When the encoder encodes the string list of an \<open>ArgumentLiterals\<close> value as
  \<open>b\<close>, a text enclosed in two bracket characters and so of two bytes at least,
  \<open>MarshalStarlark\<close> returns \<open>b\<close> without its first and its last byte.
\<close>

theorem MarshalStarlark_strips:
  "m (GoStrings al) = Inr b \<Longrightarrow> 2 \<le> length b \<Longrightarrow> MarshalStarlark m al = Inr (butlast (tl b))"
  by (simp add: MarshalStarlark_def butlast_conv_take drop_Suc)


theorem MarshalStarlark_strips_witness:
  "MarshalStarlark (\<lambda>v. Inr ''[\"a\", \"b\"]'') [''a'', ''b''] = Inr ''\"a\", \"b\"''"
  using MarshalStarlark_strips [of "\<lambda>v. Inr ''[\"a\", \"b\"]''" "[''a'', ''b'']" "''[\"a\", \"b\"]''"]
  by simp

section \<open>The methods of the writer\<close>

lemmas run_defs = NewStarlarkWriter_def emptyStream_def BeginMacro_def EndMacro_def
  PushDirectory_def PopDirectory_def WriteCommand_def writeBuffered_def writeString_def
  WriteString_def Flush_def identName_def starlarkReserved_def ident_start_def word_char_def
  in_range_def pop_def pushDirString_def indentf_def plainQuote_def Let_def

lemma identName_nonempty: "identName n = Inr c \<Longrightarrow> c \<noteq> []"
  by (cases n) (auto simp: identName_def split: if_splits)

lemma BeginMacro_ok:
  "BeginMacro name sw = (None, sw') \<Longrightarrow>
   currentMacro sw = [] \<and> identName name = Inr (currentMacro sw') \<and> currentMacro sw' \<noteq> []
   \<and> sw' = sw\<lparr>buf := buf sw @ [''def '' @ currentMacro sw' @ ''(ctx):\<newline>''],
              currentMacro := currentMacro sw'\<rparr>"
  by (auto simp: BeginMacro_def split: if_splits sum.splits dest: identName_nonempty)

lemma BeginMacro_failed: "BeginMacro name sw = (Some e, sw') \<Longrightarrow> sw' = sw"
  by (auto simp: BeginMacro_def split: if_splits sum.splits)

lemma PopDirectory_open:
  assumes "currentMacro sw \<noteq> []" and "dirStack sw \<noteq> []"
  shows "PopDirectory q sw =
     (if buf sw \<noteq> [] \<and> last (buf sw) = pushDirString q (last (dirStack sw))
      then ((last (dirStack sw), None),
            sw\<lparr>dirStack := butlast (dirStack sw), buf := butlast (buf sw)\<rparr>)
      else case writeString exitStatement (sw\<lparr>dirStack := butlast (dirStack sw)\<rparr>) of
             (e, sw2) \<Rightarrow> ((last (dirStack sw), e), sw2))"
proof -
  have p: "pop (dirStack sw) = Some (last (dirStack sw), butlast (dirStack sw))"
    using assms(2) by (rule pop_nonempty)
  have n: "buf sw \<noteq> [] \<Longrightarrow> buf sw ! (length (buf sw) - 1) = last (buf sw)"
    by (simp add: last_conv_nth)
  have t: "take (length (buf sw) - 1) (buf sw) = butlast (buf sw)"
    by (simp add: butlast_conv_take)
  show ?thesis
    using assms p n t by (auto simp: PopDirectory_def Let_def exitStatement_def)
qed

lemma writeArgs_frame:
  "writeArgs m args sw = (e, sw') \<Longrightarrow>
   buf sw' = buf sw \<and> currentMacro sw' = currentMacro sw \<and> dirStack sw' = dirStack sw"
proof (induction args arbitrary: sw)
  case Nil
  then show ?case by simp
next
  case (Cons a args)
  then show ?case
    by (auto split: prod.splits option.splits sum.splits dest: writeString_frame)
qed

lemma writeArgs_ok:
  "writeArgs m args sw = (None, sw') \<Longrightarrow>
   accepted (w sw') = accepted (w sw)
     @ concat (map (\<lambda>arg. case m arg of Inl e \<Rightarrow> [] | Inr val \<Rightarrow> '', '' @ val) args)"
proof (induction args arbitrary: sw)
  case Nil
  then show ?case by simp
next
  case (Cons a args)
  then show ?case
    by (auto split: prod.splits option.splits sum.splits dest: writeString_ok)
qed

lemma WriteCommand_frame:
  assumes "WriteCommand m cmd args sw = (e, sw')"
  shows "currentMacro sw' = currentMacro sw \<and> dirStack sw' = dirStack sw
         \<and> (buf sw' = buf sw \<or> buf sw' = [])"
proof (cases "currentMacro sw = []")
  case True
  then show ?thesis using assms by (simp add: WriteCommand_def)
next
  case op: False
  show ?thesis
  proof (cases "identName cmd")
    case (Inl err)
    then show ?thesis using assms op by (simp add: WriteCommand_def)
  next
    case (Inr c)
    obtain e1 sw1 where b1: "writeBuffered sw = (e1, sw1)" by force
    obtain e2 sw2 where b2: "writeString (indentf (''ctx.'' @ c @ ''(ctx'')) sw1 = (e2, sw2)"
      by force
    obtain e3 sw3 where b3: "writeArgs m args sw2 = (e3, sw3)" by force
    obtain e4 sw4 where b4: "writeString '')\<newline>'' sw3 = (e4, sw4)" by force
    note f = writeBuffered_frame [OF b1] writeString_frame [OF b2] writeArgs_frame [OF b3]
      writeString_frame [OF b4]
    have "sw' = sw1 \<or> sw' = sw2 \<or> sw' = sw3 \<or> sw' = sw4"
      using assms op Inr b1 b2 b3 b4
      by (cases e1; cases e2; cases e3) (simp_all add: WriteCommand_def)
    then show ?thesis using f by auto
  qed
qed

lemma WriteCommand_ok:
  assumes "WriteCommand m cmd args sw = (None, sw')"
  shows "buf sw' = []
         \<and> accepted (w sw') = accepted (w sw) @ concat (buf sw) @ commandStatement m cmd args"
proof -
  have op: "currentMacro sw \<noteq> []"
    using assms by (auto simp: WriteCommand_def)
  obtain c where c: "identName cmd = Inr c"
    using assms op by (cases "identName cmd") (simp_all add: WriteCommand_def)
  obtain e1 sw1 where b1: "writeBuffered sw = (e1, sw1)" by force
  obtain e2 sw2 where b2: "writeString (indentf (''ctx.'' @ c @ ''(ctx'')) sw1 = (e2, sw2)"
    by force
  obtain e3 sw3 where b3: "writeArgs m args sw2 = (e3, sw3)" by force
  have e1: "e1 = None"
    using assms op c b1 by (cases e1) (simp_all add: WriteCommand_def)
  have e2: "e2 = None"
    using assms op c b1 b2 e1 by (cases e2) (simp_all add: WriteCommand_def)
  have e3: "e3 = None"
    using assms op c b1 b2 b3 e1 e2 by (cases e3) (simp_all add: WriteCommand_def)
  have b4: "writeString '')\<newline>'' sw3 = (None, sw')"
    using assms op c b1 b2 b3 e1 e2 e3 by (simp add: WriteCommand_def)
  have "buf sw1 = []" and a1: "accepted (w sw1) = accepted (w sw) @ concat (buf sw)"
    using writeBuffered_ok b1 e1 by simp_all
  moreover have "buf sw2 = buf sw1"
    and a2: "accepted (w sw2) = accepted (w sw1) @ indentf (''ctx.'' @ c @ ''(ctx'')"
    using writeString_frame [OF b2] writeString_ok b2 e2 by simp_all
  moreover have "buf sw3 = buf sw2"
    and a3: "accepted (w sw3) = accepted (w sw2)
       @ concat (map (\<lambda>arg. case m arg of Inl e \<Rightarrow> [] | Inr val \<Rightarrow> '', '' @ val) args)"
    using writeArgs_frame [OF b3] writeArgs_ok b3 e3 by simp_all
  moreover have "buf sw' = buf sw3" and a4: "accepted (w sw') = accepted (w sw3) @ '')\<newline>''"
    using writeString_frame [OF b4] writeString_ok [OF b4] by simp_all
  ultimately show ?thesis
    using c by (simp add: commandStatement_def)
qed

lemma step_keeps_macro:
  assumes "c \<noteq> CallEndMacro" and "currentMacro sw \<noteq> []"
  shows "currentMacro (snd (step q m c sw)) = currentMacro sw"
proof (cases c)
  case (CallBeginMacro name)
  then show ?thesis using assms by (simp add: BeginMacro_def)
next
  case CallEndMacro
  then show ?thesis using assms by simp
next
  case (CallPushDirectory path)
  then show ?thesis by (simp add: PushDirectory_def)
next
  case CallPopDirectory
  show ?thesis
  proof (cases "dirStack sw = []")
    case True
    then show ?thesis using CallPopDirectory by (simp add: PopDirectory_def)
  next
    case False
    obtain e sw2 where b: "writeString exitStatement (sw\<lparr>dirStack := butlast (dirStack sw)\<rparr>) = (e, sw2)"
      by force
    show ?thesis
      using CallPopDirectory PopDirectory_open [OF assms(2) False, of q] b writeString_frame [OF b]
      by simp
  qed
next
  case (CallWriteCommand cmd args)
  obtain e sw' where b: "WriteCommand m cmd args sw = (e, sw')" by force
  show ?thesis using CallWriteCommand b WriteCommand_frame [OF b] by simp
qed

lemma drive_keeps_macro:
  "CallEndMacro \<notin> set cs \<Longrightarrow> currentMacro sw \<noteq> [] \<Longrightarrow>
   currentMacro (drive q m cs sw) = currentMacro sw"
proof (induction cs arbitrary: sw)
  case Nil
  then show ?case by simp
next
  case (Cons c cs)
  have k: "currentMacro (snd (step q m c sw)) = currentMacro sw"
    using step_keeps_macro [of c sw q m] Cons.prems by auto
  show ?case
    using Cons.IH [of "snd (step q m c sw)"] Cons.prems k by simp
qed

lemma writeString_stack:
  "writeString s (sw\<lparr>dirStack := ds\<rparr>)
     = (case writeString s sw of (e, sw') \<Rightarrow> (e, sw'\<lparr>dirStack := ds\<rparr>))"
  by (simp add: writeString_def split: prod.splits)

lemma writeEntries_stack:
  "writeEntries es (sw\<lparr>dirStack := ds\<rparr>)
     = (case writeEntries es sw of (e, sw') \<Rightarrow> (e, sw'\<lparr>dirStack := ds\<rparr>))"
proof (induction es arbitrary: sw)
  case Nil
  then show ?case by simp
next
  case (Cons x es)
  then show ?case
    by (simp add: writeString_stack split: prod.splits option.splits)
qed

lemma writeBuffered_stack:
  "writeBuffered (sw\<lparr>dirStack := ds\<rparr>)
     = (case writeBuffered sw of (e, sw') \<Rightarrow> (e, sw'\<lparr>dirStack := ds\<rparr>))"
  by (simp add: writeBuffered_def writeEntries_stack split: prod.splits option.splits)

lemma EndMacro_stack:
  "EndMacro (sw\<lparr>dirStack := ds\<rparr>)
     = (case EndMacro sw of (e, sw') \<Rightarrow> (e, sw'\<lparr>dirStack := ds\<rparr>))"
  by (simp add: EndMacro_def writeBuffered_stack writeString_stack Let_def
      split: prod.splits option.splits)

lemma PopDirectory_pops:
  assumes "currentMacro sw \<noteq> []" and "dirStack sw \<noteq> []"
  shows "fst (fst (PopDirectory q sw)) = last (dirStack sw)
         \<and> dirStack (snd (PopDirectory q sw)) = butlast (dirStack sw)"
proof -
  obtain e sw2 where b: "writeString exitStatement (sw\<lparr>dirStack := butlast (dirStack sw)\<rparr>) = (e, sw2)"
    by force
  show ?thesis
    using PopDirectory_open [OF assms, of q] b writeString_frame [OF b] by simp
qed

lemma takes_Suc:
  assumes "takes (Suc n) b"
  shows "remaining b = None \<or> (\<exists>k. remaining b = Some (Suc k) \<and> n \<le> k)"
proof (cases "remaining b")
  case None
  then show ?thesis by simp
next
  case (Some a)
  then show ?thesis using assms by (cases a) (simp_all add: takes_def)
qed

lemma writeString_takes:
  assumes "takes (Suc n) (w sw)"
  shows "\<exists>sw'. writeString s sw = (None, sw') \<and> takes n (w sw')"
  using takes_Suc [OF assms]
  by (auto simp: writeString_def WriteString_def takes_def)

lemma writeEntries_takes:
  "takes (length es + n) (w sw) \<Longrightarrow> \<exists>sw'. writeEntries es sw = (None, sw') \<and> takes n (w sw')"
proof (induction es arbitrary: sw)
  case Nil
  then show ?case by simp
next
  case (Cons x es)
  then have "takes (Suc (length es + n)) (w sw)" by simp
  then obtain sw1 where s1: "writeString x sw = (None, sw1)" "takes (length es + n) (w sw1)"
    using writeString_takes by blast
  then show ?case using Cons.IH [of sw1] by simp
qed

lemma writeBuffered_takes:
  assumes "takes (length (buf sw) + n) (w sw)"
  shows "\<exists>sw'. writeBuffered sw = (None, sw') \<and> takes n (w sw')"
proof -
  obtain sw1 where "writeEntries (buf sw) sw = (None, sw1)" "takes n (w sw1)"
    using writeEntries_takes [OF assms] by blast
  then show ?thesis by (simp add: writeBuffered_def)
qed

lemma writeArgs_failing:
  assumes "m a = Inl e"
  shows "map m pre = map Inr lits \<Longrightarrow> takes (length pre) (w sw) \<Longrightarrow>
     \<exists>sw'. writeArgs m (pre @ a # post) sw = (Some e, sw')
       \<and> buf sw' = buf sw \<and> currentMacro sw' = currentMacro sw \<and> dirStack sw' = dirStack sw
       \<and> accepted (w sw') = accepted (w sw) @ concat (map (\<lambda>val. '', '' @ val) lits)"
proof (induction pre arbitrary: sw lits)
  case Nil
  then show ?case using assms by simp
next
  case (Cons x pre)
  obtain v vs where l: "lits = v # vs" "m x = Inr v" "map m pre = map Inr vs"
    using Cons.prems(1) by (cases lits) auto
  have "takes (Suc (length pre)) (w sw)" using Cons.prems(2) by simp
  then obtain sw1 where s1: "writeString ('', '' @ v) sw = (None, sw1)" "takes (length pre) (w sw1)"
    using writeString_takes by blast
  obtain sw' where s': "writeArgs m (pre @ a # post) sw1 = (Some e, sw')"
    "buf sw' = buf sw1" "currentMacro sw' = currentMacro sw1" "dirStack sw' = dirStack sw1"
    "accepted (w sw') = accepted (w sw1) @ concat (map (\<lambda>val. '', '' @ val) vs)"
    using Cons.IH [OF l(3) s1(2)] by blast
  show ?case
    using l s1 s' writeString_frame [OF s1(1)] writeString_ok [OF s1(1)] by simp
qed

section \<open>Beginning and ending a macro\<close>

text \<open>
  Claim C8. After a \<open>BeginMacro\<close> that succeeded and any calls other than \<open>EndMacro\<close>, a
  further \<open>BeginMacro\<close> fails with the nested-macros error and returns the writer as it
  was: still writing the first macro, whose sanitized name is the current macro, with
  the pending buffer, the directory stack and the output untouched.
\<close>

theorem BeginMacro_twice:
  assumes "BeginMacro name sw = (None, sw1)" and "CallEndMacro \<notin> set cs"
  shows "identName name = Inr (currentMacro (drive q m cs sw1))
         \<and> currentMacro (drive q m cs sw1) \<noteq> []
         \<and> BeginMacro name' (drive q m cs sw1) = (Some NestedMacros, drive q m cs sw1)"
proof -
  have f: "identName name = Inr (currentMacro sw1)" "currentMacro sw1 \<noteq> []"
    using BeginMacro_ok [OF assms(1)] by simp_all
  have "currentMacro (drive q m cs sw1) = currentMacro sw1"
    using drive_keeps_macro [OF assms(2) f(2)] .
  then show ?thesis
    using f by (simp add: BeginMacro_def)
qed

theorem BeginMacro_twice_witness:
  "BeginMacro ''gen'' (NewStarlarkWriter emptyStream)
     = (None, \<lparr>w = emptyStream, buf = [''def gen(ctx):\<newline>''], currentMacro = ''gen'',
               dirStack = []\<rparr>)
   \<and> BeginMacro ''other''
       (drive plainQuote plainMarshal [CallPushDirectory ''lib'']
          \<lparr>w = emptyStream, buf = [''def gen(ctx):\<newline>''], currentMacro = ''gen'', dirStack = []\<rparr>)
     = (Some NestedMacros,
        drive plainQuote plainMarshal [CallPushDirectory ''lib'']
          \<lparr>w = emptyStream, buf = [''def gen(ctx):\<newline>''], currentMacro = ''gen'', dirStack = []\<rparr>)"
proof -
  have b: "BeginMacro ''gen'' (NewStarlarkWriter emptyStream)
     = (None, \<lparr>w = emptyStream, buf = [''def gen(ctx):\<newline>''], currentMacro = ''gen'',
               dirStack = []\<rparr>)"
    by (simp add: run_defs)
  have n: "CallEndMacro \<notin> set [CallPushDirectory ''lib'']"
    by simp
  show ?thesis
    using BeginMacro_twice [OF b n, of plainQuote plainMarshal "''other''"] b by simp
qed

text \<open>
  Claim C5. \<open>EndMacro\<close> never changes the directory stack, and what it returns does not
  depend on the stack. When it succeeds it has written the pending statements and the
  return statement and nothing else, so no directory is exited; the stack is the same in
  a macro begun afterwards, where \<open>PopDirectory\<close> returns its last entry and removes it.
\<close>

theorem EndMacro_keeps_dirStack:
  "dirStack (snd (EndMacro sw)) = dirStack sw
   \<and> EndMacro (sw\<lparr>dirStack := ds\<rparr>) = (fst (EndMacro sw), snd (EndMacro sw)\<lparr>dirStack := ds\<rparr>)
   \<and> (\<forall>sw1 name sw2.
        EndMacro sw = (None, sw1) \<and> BeginMacro name sw1 = (None, sw2) \<longrightarrow>
          accepted (w sw1) = accepted (w sw) @ concat (buf sw) @ indentf ''return ctx\<newline>''
          \<and> dirStack sw2 = dirStack sw
          \<and> (dirStack sw \<noteq> [] \<longrightarrow>
               fst (fst (PopDirectory q sw2)) = last (dirStack sw)
               \<and> dirStack (snd (PopDirectory q sw2)) = butlast (dirStack sw)))"
proof (intro conjI allI impI)
  show "dirStack (snd (EndMacro sw)) = dirStack sw" by (rule EndMacro_frame)
next
  show "EndMacro (sw\<lparr>dirStack := ds\<rparr>) = (fst (EndMacro sw), snd (EndMacro sw)\<lparr>dirStack := ds\<rparr>)"
    by (simp add: EndMacro_stack split: prod.splits)
next
  fix sw1 name sw2
  assume a: "EndMacro sw = (None, sw1) \<and> BeginMacro name sw1 = (None, sw2)"
  note e = EndMacro_ok [of sw sw1]
  note b = BeginMacro_ok [of name sw1 sw2]
  show "accepted (w sw1) = accepted (w sw) @ concat (buf sw) @ indentf ''return ctx\<newline>''"
    using a e by simp
  have d: "dirStack sw2 = dirStack sw1"
    using a by (auto simp: BeginMacro_def split: if_splits sum.splits)
  show d2: "dirStack sw2 = dirStack sw"
    using a e d by simp
  assume ne: "dirStack sw \<noteq> []"
  have "currentMacro sw2 \<noteq> []" using a b by simp
  then show "fst (fst (PopDirectory q sw2)) = last (dirStack sw)"
    and "dirStack (snd (PopDirectory q sw2)) = butlast (dirStack sw)"
    using PopDirectory_pops [of sw2 q] ne d2 by simp_all
qed


theorem EndMacro_keeps_dirStack_witness:
  "EndMacro (NewStarlarkWriter emptyStream\<lparr>buf := [''def a(ctx):\<newline>''], currentMacro := ''a'',
       dirStack := [''lib'']\<rparr>)
     = (None, \<lparr>w = emptyStream\<lparr>accepted := ''def a(ctx):\<newline>    return ctx\<newline>''\<rparr>, buf = [],
               currentMacro = [], dirStack = [''lib'']\<rparr>)
   \<and> BeginMacro ''b'' \<lparr>w = emptyStream\<lparr>accepted := ''def a(ctx):\<newline>    return ctx\<newline>''\<rparr>,
        buf = [], currentMacro = [], dirStack = [''lib'']\<rparr>
     = (None, \<lparr>w = emptyStream\<lparr>accepted := ''def a(ctx):\<newline>    return ctx\<newline>''\<rparr>,
               buf = [''def b(ctx):\<newline>''], currentMacro = ''b'', dirStack = [''lib'']\<rparr>)
   \<and> fst (fst (PopDirectory plainQuote
        \<lparr>w = emptyStream\<lparr>accepted := ''def a(ctx):\<newline>    return ctx\<newline>''\<rparr>,
         buf = [''def b(ctx):\<newline>''], currentMacro = ''b'', dirStack = [''lib'']\<rparr>)) = ''lib''"
proof -
  let ?s0 = "NewStarlarkWriter emptyStream\<lparr>buf := [''def a(ctx):\<newline>''], currentMacro := ''a'',
       dirStack := [''lib'']\<rparr>"
  let ?s1 = "\<lparr>w = emptyStream\<lparr>accepted := ''def a(ctx):\<newline>    return ctx\<newline>''\<rparr>, buf = [],
               currentMacro = [], dirStack = [''lib'']\<rparr>"
  let ?s2 = "\<lparr>w = emptyStream\<lparr>accepted := ''def a(ctx):\<newline>    return ctx\<newline>''\<rparr>,
               buf = [''def b(ctx):\<newline>''], currentMacro = ''b'', dirStack = [''lib'']\<rparr>"
  have e: "EndMacro ?s0 = (None, ?s1)"
    by (simp add: run_defs)
  have b: "BeginMacro ''b'' ?s1 = (None, ?s2)"
    by (simp add: run_defs)
  have d: "dirStack ?s0 \<noteq> []"
    by (simp add: run_defs)
  show ?thesis
    using EndMacro_keeps_dirStack [of ?s0 "[]" plainQuote] e b d by simp
qed

text \<open>
  Claim C7. On a new writer whose stream completes six operations, with an encoder that
  renders the string \<open>foo\<close> as that string between double quotes, the calls
  \<open>BeginMacro("gen")\<close>, \<open>WriteCommand("cc_library", "foo")\<close>, \<open>EndMacro()\<close> all succeed and
  write exactly three lines: the header, the command and the return statement, the last
  two behind four spaces.
\<close>

theorem gen_macro_output:
  assumes "m (GoString ''foo'') = Inr ''\"foo\"''" and "takes 6 b"
  shows "\<exists>sw'. run q m [CallBeginMacro ''gen'', CallWriteCommand ''cc_library'' [GoString ''foo''],
                        CallEndMacro] (NewStarlarkWriter b) = Inr sw'
       \<and> accepted (w sw') = accepted b
           @ ''def gen(ctx):\<newline>'' @ ''    ctx.cc_library(ctx, \"foo\")\<newline>'' @ ''    return ctx\<newline>''
       \<and> buf sw' = [] \<and> currentMacro sw' = [] \<and> dirStack sw' = []"
proof -
  have r: "remaining b = None
      \<or> (\<exists>k. remaining b = Some (Suc (Suc (Suc (Suc (Suc (Suc k)))))))"
  proof (cases "remaining b")
    case None
    then show ?thesis by simp
  next
    case (Some n)
    then have "6 \<le> n" using assms(2) by (simp add: takes_def)
    then obtain k where "n = 6 + k" using le_Suc_ex by blast
    then show ?thesis using Some by (simp add: numeral_eq_Suc)
  qed
  then show ?thesis
  proof
    assume "remaining b = None"
    then show ?thesis using assms(1) by (simp add: run_defs)
  next
    assume "\<exists>k. remaining b = Some (Suc (Suc (Suc (Suc (Suc (Suc k))))))"
    then show ?thesis using assms(1) by (auto simp: run_defs)
  qed
qed

theorem gen_macro_output_witness:
  "run plainQuote plainMarshal
     [CallBeginMacro ''gen'', CallWriteCommand ''cc_library'' [GoString ''foo''], CallEndMacro]
     (NewStarlarkWriter emptyStream)
   = Inr \<lparr>w = \<lparr>accepted = ''def gen(ctx):\<newline>    ctx.cc_library(ctx, \"foo\")\<newline>    return ctx\<newline>'',
               remaining = None\<rparr>,
          buf = [], currentMacro = [], dirStack = []\<rparr>"
proof -
  have h1: "plainMarshal (GoString ''foo'') = Inr ''\"foo\"''" by (simp add: plainQuote_def)
  have h2: "takes 6 emptyStream" by (simp add: takes_def emptyStream_def)
  have e: "run plainQuote plainMarshal
     [CallBeginMacro ''gen'', CallWriteCommand ''cc_library'' [GoString ''foo''], CallEndMacro]
     (NewStarlarkWriter emptyStream)
   = Inr \<lparr>w = \<lparr>accepted = ''def gen(ctx):\<newline>    ctx.cc_library(ctx, \"foo\")\<newline>    return ctx\<newline>'',
               remaining = None\<rparr>,
          buf = [], currentMacro = [], dirStack = []\<rparr>"
    by (simp add: run_defs)
  show ?thesis
    using gen_macro_output [of plainMarshal emptyStream plainQuote] h1 h2 e by simp
qed

section \<open>Commands whose argument is not encoded\<close>

text \<open>
  Claim C2, as the specification has it, says that a command whose argument the encoder
  rejects leaves no text of its own in the output. The writer has begun the macro
  \<open>gen\<close>; the encoder takes the first argument and rejects the second: the call returns
  the encoder's error, and the output holds the opening of the command and its first
  argument.
\<close>

theorem WriteCommand_partial_statement:
  "WriteCommand plainMarshal ''cc_library'' [GoString ''foo'', GoOther 0]
       (snd (BeginMacro ''gen'' (NewStarlarkWriter emptyStream)))
     = (Some (EncodeError ''unsupported value''),
        \<lparr>w = \<lparr>accepted = ''def gen(ctx):\<newline>    ctx.cc_library(ctx, \"foo\"'', remaining = None\<rparr>,
         buf = [], currentMacro = ''gen'', dirStack = []\<rparr>)"
  by (simp add: run_defs)



text \<open>
  Claim C2, amended. With an open macro, a valid command name and a stream that completes
  the writes of the call, when the encoder rejects an argument after having encoded
  those before it, \<open>WriteCommand\<close> returns exactly the encoder's error; the pending
  statements have been written and the buffer is empty; after them the output holds
  the opening of the command and the literals of the arguments before the rejected one,
  each after a comma, and no closing parenthesis.
\<close>

theorem WriteCommand_encoder_error:
  assumes "currentMacro sw \<noteq> []" and "identName cmd = Inr c"
    and "map m pre = map Inr lits" and "m a = Inl e"
    and "takes (length (buf sw) + (1 + length pre)) (w sw)"
  shows "\<exists>sw'. WriteCommand m cmd (pre @ a # post) sw = (Some e, sw')
       \<and> buf sw' = [] \<and> currentMacro sw' = currentMacro sw \<and> dirStack sw' = dirStack sw
       \<and> accepted (w sw') = accepted (w sw) @ concat (buf sw)
           @ indentf (''ctx.'' @ c @ ''(ctx'') @ concat (map (\<lambda>val. '', '' @ val) lits)"
proof -
  obtain sw1 where s1: "writeBuffered sw = (None, sw1)" "takes (1 + length pre) (w sw1)"
    using writeBuffered_takes [OF assms(5)] by blast
  have "takes (Suc (length pre)) (w sw1)" using s1(2) by simp
  then obtain sw2 where s2: "writeString (indentf (''ctx.'' @ c @ ''(ctx'')) sw1 = (None, sw2)"
    "takes (length pre) (w sw2)"
    using writeString_takes by blast
  obtain sw3 where s3: "writeArgs m (pre @ a # post) sw2 = (Some e, sw3)"
    "buf sw3 = buf sw2" "currentMacro sw3 = currentMacro sw2" "dirStack sw3 = dirStack sw2"
    "accepted (w sw3) = accepted (w sw2) @ concat (map (\<lambda>val. '', '' @ val) lits)"
    using writeArgs_failing [OF assms(4) assms(3) s2(2)] by blast
  have r: "WriteCommand m cmd (pre @ a # post) sw = (Some e, sw3)"
    using assms(1,2) s1(1) s2(1) s3(1) by (simp add: WriteCommand_def)
  show ?thesis
    using r s3 writeBuffered_ok [OF s1(1)] writeBuffered_frame [OF s1(1)]
      writeString_frame [OF s2(1)] writeString_ok [OF s2(1)]
    by simp
qed


theorem WriteCommand_encoder_error_witness:
  "\<exists>sw'. WriteCommand plainMarshal ''cc_library'' ([GoString ''foo''] @ GoOther 0 # [GoString ''bar''])
           \<lparr>w = emptyStream, buf = [''def gen(ctx):\<newline>''], currentMacro = ''gen'', dirStack = []\<rparr>
         = (Some (EncodeError ''unsupported value''), sw')
       \<and> buf sw' = []
       \<and> accepted (w sw') = ''def gen(ctx):\<newline>    ctx.cc_library(ctx, \"foo\"''"
proof -
  let ?sw = "\<lparr>w = emptyStream, buf = [''def gen(ctx):\<newline>''], currentMacro = ''gen'', dirStack = []\<rparr>"
  have h1: "currentMacro ?sw \<noteq> []" by simp
  have h2: "identName ''cc_library'' = Inr ''cc_library''" by (simp add: run_defs)
  have h3: "map plainMarshal [GoString ''foo''] = map Inr [''\"foo\"'']"
    by (simp add: plainQuote_def)
  have h4: "plainMarshal (GoOther 0) = Inl (EncodeError ''unsupported value'')" by simp
  have h5: "takes (length (buf ?sw) + (1 + length [GoString ''foo''])) (w ?sw)"
    by (simp add: takes_def emptyStream_def)
  show ?thesis
    using WriteCommand_encoder_error [OF h1 h2 h3 h4 h5, of "[GoString ''bar'']"]
    by (fastforce simp: emptyStream_def indentf_def)
qed



section \<open>Directories\<close>

lemma run_append:
  "run q m (xs @ ys) sw = (case run q m xs sw of Inl e \<Rightarrow> Inl e | Inr sw1 \<Rightarrow> run q m ys sw1)"
proof (induction xs arbitrary: sw)
  case Nil
  then show ?case by simp
next
  case (Cons c xs)
  then show ?case by (simp split: prod.splits option.splits)
qed

lemma run_Cons_ok:
  "run q m (c # cs) sw = Inr sw' \<Longrightarrow>
   \<exists>sw1. step q m c sw = (None, sw1) \<and> run q m cs sw1 = Inr sw'"
  by (simp split: prod.splits option.splits)

lemma PushDirectory_open:
  "currentMacro sw \<noteq> [] \<Longrightarrow>
   PushDirectory q path sw
     = (None, sw\<lparr>dirStack := dirStack sw @ [path], buf := buf sw @ [pushDirString q path]\<rparr>)"
  by (simp add: PushDirectory_def)

lemma push_pop_elided:
  assumes "currentMacro sw \<noteq> []"
  shows "PopDirectory q (sw\<lparr>dirStack := dirStack sw @ [path], buf := buf sw @ [pushDirString q path]\<rparr>)
     = ((path, None), sw)"
proof -
  let ?sw1 = "sw\<lparr>dirStack := dirStack sw @ [path], buf := buf sw @ [pushDirString q path]\<rparr>"
  have "currentMacro ?sw1 \<noteq> []" and "dirStack ?sw1 \<noteq> []"
    using assms by simp_all
  then show ?thesis
    using PopDirectory_open [of ?sw1 q] by simp
qed

lemma render_without_command: "\<not> has_command blk \<Longrightarrow> render q m blk = []"
  by (induction blk) simp_all

lemma run_without_command:
  "\<not> has_command blk \<Longrightarrow> currentMacro sw \<noteq> [] \<Longrightarrow> run q m (calls blk) sw = Inr sw"
proof (induction blk arbitrary: sw)
  case Done
  then show ?case by simp
next
  case (Command cmd args rest)
  then show ?case by simp
next
  case (Directory path inner rest)
  let ?sw1 = "sw\<lparr>dirStack := dirStack sw @ [path], buf := buf sw @ [pushDirString q path]\<rparr>"
  have op1: "currentMacro ?sw1 \<noteq> []"
    using Directory.prems by simp
  have i: "run q m (calls inner) ?sw1 = Inr ?sw1"
    using Directory.IH(1) [OF _ op1] Directory.prems by simp
  have r: "run q m (calls rest) sw = Inr sw"
    using Directory.IH(2) Directory.prems by simp
  have p: "run q m (CallPopDirectory # calls rest) ?sw1 = Inr sw"
    using push_pop_elided [OF Directory.prems(2), of q path] r by simp
  show ?case
    using PushDirectory_open [OF Directory.prems(2), of q path] i p
    by (simp add: run_append)
qed

lemma run_with_command:
  "has_command blk \<Longrightarrow> currentMacro sw \<noteq> [] \<Longrightarrow> run q m (calls blk) sw = Inr sw' \<Longrightarrow>
   buf sw' = [] \<and> dirStack sw' = dirStack sw \<and> currentMacro sw' = currentMacro sw
   \<and> accepted (w sw') = accepted (w sw) @ concat (buf sw) @ render q m blk"
proof (induction blk arbitrary: sw sw')
  case Done
  then show ?case by simp
next
  case (Command cmd args rest)
  obtain sw1 where s1: "WriteCommand m cmd args sw = (None, sw1)"
    and r: "run q m (calls rest) sw1 = Inr sw'"
    using run_Cons_ok [of q m "CallWriteCommand cmd args" "calls rest" sw sw'] Command.prems(3)
    by auto
  note f1 = WriteCommand_frame [OF s1] WriteCommand_ok [OF s1]
  have op1: "currentMacro sw1 \<noteq> []"
    using f1 Command.prems(2) by simp
  show ?case
  proof (cases "has_command rest")
    case True
    show ?thesis
      using Command.IH [OF True op1 r] f1 by simp
  next
    case False
    have "sw' = sw1"
      using run_without_command [OF False op1, of q m] r by simp
    then show ?thesis
      using f1 render_without_command [OF False, of q m] by simp
  qed
next
  case (Directory path inner rest)
  let ?sw1 = "sw\<lparr>dirStack := dirStack sw @ [path], buf := buf sw @ [pushDirString q path]\<rparr>"
  have op1: "currentMacro ?sw1 \<noteq> []"
    using Directory.prems(2) by simp
  have "run q m (calls inner @ CallPopDirectory # calls rest) ?sw1 = Inr sw'"
    using Directory.prems(3) PushDirectory_open [OF Directory.prems(2), of q path] by simp
  then obtain sw2 where i: "run q m (calls inner) ?sw1 = Inr sw2"
    and p: "run q m (CallPopDirectory # calls rest) sw2 = Inr sw'"
    by (auto simp: run_append split: sum.splits)
  show ?case
  proof (cases "has_command inner")
    case False
    have "sw2 = ?sw1"
      using run_without_command [OF False op1, of q m] i by simp
    then have r: "run q m (calls rest) sw = Inr sw'"
      using p push_pop_elided [OF Directory.prems(2), of q path] by simp
    have hr: "has_command rest"
      using Directory.prems(1) False by simp
    show ?thesis
      using Directory.IH(2) [OF hr Directory.prems(2) r] False by simp
  next
    case True
    note f2 = Directory.IH(1) [OF True op1 i]
    have op2: "currentMacro sw2 \<noteq> []" and ne2: "dirStack sw2 \<noteq> []" and b2: "buf sw2 = []"
      using f2 Directory.prems(2) by simp_all
    obtain e sw3 where x: "writeString exitStatement (sw2\<lparr>dirStack := butlast (dirStack sw2)\<rparr>) = (e, sw3)"
      by force
    have st: "step q m CallPopDirectory sw2 = (e, sw3)"
      using PopDirectory_open [OF op2 ne2, of q] b2 x by simp
    have e: "e = None" and r: "run q m (calls rest) sw3 = Inr sw'"
      using run_Cons_ok [OF p] st by simp_all
    note f3 = writeString_frame [OF x] writeString_ok [OF x [unfolded e]]
    have op3: "currentMacro sw3 \<noteq> []"
      using f3 op2 by simp
    have a3: "buf sw3 = [] \<and> dirStack sw3 = dirStack sw \<and> currentMacro sw3 = currentMacro sw
       \<and> accepted (w sw3) = accepted (w sw) @ concat (buf sw)
            @ pushDirString q path @ render q m inner @ exitStatement"
      using f2 f3 by simp
    show ?thesis
    proof (cases "has_command rest")
      case hr: True
      show ?thesis
        using Directory.IH(2) [OF hr op3 r] a3 True by simp
    next
      case hr: False
      have "sw' = sw3"
        using run_without_command [OF hr op3, of q m] r by simp
      then show ?thesis
        using a3 True render_without_command [OF hr, of q m] by simp
    qed
  qed
qed

lemma commands_have_command: "x \<in> set (commands blk) \<Longrightarrow> has_command blk"
  by (induction blk) auto

lemma render_holds_command:
  "(cmd, args) \<in> set (commands blk) \<Longrightarrow>
   \<exists>before after. render q m blk = before @ commandStatement m cmd args @ after"
proof (induction blk)
  case Done
  then show ?case by simp
next
  case (Command c a rest)
  show ?case
  proof (cases "(cmd, args) = (c, a)")
    case True
    then have "render q m (Command c a rest) = [] @ commandStatement m cmd args @ render q m rest"
      by simp
    then show ?thesis by blast
  next
    case False
    then obtain b1 a1 where "render q m rest = b1 @ commandStatement m cmd args @ a1"
      using Command by auto
    then have "render q m (Command c a rest)
        = (commandStatement m c a @ b1) @ commandStatement m cmd args @ a1"
      by simp
    then show ?thesis by blast
  qed
next
  case (Directory path inner rest)
  show ?case
  proof (cases "(cmd, args) \<in> set (commands inner)")
    case True
    then obtain b1 a1 where r: "render q m inner = b1 @ commandStatement m cmd args @ a1"
      using Directory.IH(1) by auto
    have "has_command inner"
      using True by (rule commands_have_command)
    then have "render q m (Directory path inner rest)
        = (pushDirString q path @ b1) @ commandStatement m cmd args
            @ (a1 @ exitStatement @ render q m rest)"
      using r by simp
    then show ?thesis by blast
  next
    case False
    then obtain b1 a1 where r: "render q m rest = b1 @ commandStatement m cmd args @ a1"
      using Directory.IH(2) Directory.prems by auto
    obtain pre where "render q m (Directory path inner rest) = pre @ render q m rest"
      by simp
    then have "render q m (Directory path inner rest)
        = (pre @ b1) @ commandStatement m cmd args @ a1"
      using r by simp
    then show ?thesis by blast
  qed
qed

text \<open>
  Claim C3. Inside an open macro, take a \<open>PushDirectory\<close>, properly nested calls, and the
  matching \<open>PopDirectory\<close>. If no command is among the calls between them, the calls
  succeed and leave the writer exactly as it was: neither statement of the pair is ever
  written. If a command is among them and the calls succeed, the output has grown by the
  pending statements, the enter statement, the text of the calls between, and the exit
  statement, in this order; and the text of the calls between holds the statement of each
  of their commands.
\<close>

theorem directory_pair_output:
  assumes "currentMacro sw \<noteq> []"
  shows "(\<not> has_command mid \<longrightarrow>
            run q m (CallPushDirectory path # calls mid @ [CallPopDirectory]) sw = Inr sw)
       \<and> (has_command mid \<longrightarrow>
            (\<forall>sw'. run q m (CallPushDirectory path # calls mid @ [CallPopDirectory]) sw = Inr sw' \<longrightarrow>
               buf sw' = [] \<and> dirStack sw' = dirStack sw
               \<and> accepted (w sw') = accepted (w sw) @ concat (buf sw)
                    @ pushDirString q path @ render q m mid @ exitStatement
               \<and> (\<forall>(cmd, args) \<in> set (commands mid).
                     \<exists>before after. render q m mid = before @ commandStatement m cmd args @ after)))"
proof (intro conjI impI allI)
  assume "\<not> has_command mid"
  then have "\<not> has_command (Directory path mid Done)" by simp
  then show "run q m (CallPushDirectory path # calls mid @ [CallPopDirectory]) sw = Inr sw"
    using run_without_command [of "Directory path mid Done" sw q m] assms by simp
next
  fix sw'
  assume h: "has_command mid"
    and r: "run q m (CallPushDirectory path # calls mid @ [CallPopDirectory]) sw = Inr sw'"
  have "has_command (Directory path mid Done)"
    and "run q m (calls (Directory path mid Done)) sw = Inr sw'"
    using h r by simp_all
  then have f: "buf sw' = [] \<and> dirStack sw' = dirStack sw \<and> currentMacro sw' = currentMacro sw
     \<and> accepted (w sw') = accepted (w sw) @ concat (buf sw) @ render q m (Directory path mid Done)"
    using run_with_command [of "Directory path mid Done" sw q m sw'] assms by blast
  show "buf sw' = []" and "dirStack sw' = dirStack sw"
    using f by simp_all
  show "accepted (w sw') = accepted (w sw) @ concat (buf sw)
          @ pushDirString q path @ render q m mid @ exitStatement"
    using f h by simp
  show "\<forall>(cmd, args) \<in> set (commands mid).
          \<exists>before after. render q m mid = before @ commandStatement m cmd args @ after"
    using render_holds_command [of _ _ mid q m] by auto
qed

theorem directory_pair_output_witness:
  "run plainQuote plainMarshal (CallPushDirectory ''lib'' # calls Done @ [CallPopDirectory])
       \<lparr>w = emptyStream, buf = [''def gen(ctx):\<newline>''], currentMacro = ''gen'', dirStack = []\<rparr>
     = Inr \<lparr>w = emptyStream, buf = [''def gen(ctx):\<newline>''], currentMacro = ''gen'', dirStack = []\<rparr>
   \<and> run plainQuote plainMarshal
       (CallPushDirectory ''lib'' # calls (Command ''cc_library'' [GoString ''foo''] Done)
          @ [CallPopDirectory])
       \<lparr>w = emptyStream, buf = [''def gen(ctx):\<newline>''], currentMacro = ''gen'', dirStack = []\<rparr>
     = Inr \<lparr>w = \<lparr>accepted = ''def gen(ctx):\<newline>''
                   @ ''    ctx = ctx.push_directory(ctx, \"lib\")\<newline>''
                   @ ''    ctx.cc_library(ctx, \"foo\")\<newline>''
                   @ ''    ctx = ctx.pop_directory(ctx)\<newline>'', remaining = None\<rparr>,
            buf = [], currentMacro = ''gen'', dirStack = []\<rparr>
   \<and> render plainQuote plainMarshal (Command ''cc_library'' [GoString ''foo''] Done)
     = ''    ctx.cc_library(ctx, \"foo\")\<newline>''"
proof -
  let ?sw = "\<lparr>w = emptyStream, buf = [''def gen(ctx):\<newline>''], currentMacro = ''gen'', dirStack = []\<rparr>"
  let ?mid = "Command ''cc_library'' [GoString ''foo''] Done"
  have op: "currentMacro ?sw \<noteq> []" by simp
  have n: "\<not> has_command Done" and h: "has_command ?mid" by simp_all
  have r: "run plainQuote plainMarshal (CallPushDirectory ''lib'' # calls ?mid @ [CallPopDirectory]) ?sw
     = Inr \<lparr>w = \<lparr>accepted = ''def gen(ctx):\<newline>''
                   @ ''    ctx = ctx.push_directory(ctx, \"lib\")\<newline>''
                   @ ''    ctx.cc_library(ctx, \"foo\")\<newline>''
                   @ ''    ctx = ctx.pop_directory(ctx)\<newline>'', remaining = None\<rparr>,
            buf = [], currentMacro = ''gen'', dirStack = []\<rparr>"
    by (simp add: run_defs)
  have t: "render plainQuote plainMarshal ?mid = ''    ctx.cc_library(ctx, \"foo\")\<newline>''"
    by (simp add: commandStatement_def run_defs)
  show ?thesis
    using directory_pair_output [OF op, of Done plainQuote plainMarshal "''lib''"]
      directory_pair_output [OF op, of ?mid plainQuote plainMarshal "''lib''"] n h r t
    by simp
qed

lemma header_is_no_enter: "''def '' @ n @ ''(ctx):\<newline>'' \<noteq> pushDirString q path"
  by (simp add: pushDirString_def indentf_def)

lemma EndMacro_cases:
  assumes "EndMacro sw = (e, sw1)"
  shows "dirStack sw1 = dirStack sw
     \<and> (currentMacro sw1 = currentMacro sw \<and> buf sw1 = buf sw
        \<or> buf sw1 = [] \<and> (currentMacro sw1 = currentMacro sw \<or> currentMacro sw1 = []))"
proof (cases "currentMacro sw = []")
  case True
  then show ?thesis using assms by (simp add: EndMacro_def)
next
  case op: False
  obtain e1 s1 where b1: "writeBuffered sw = (e1, s1)" by force
  show ?thesis
  proof (cases e1)
    case (Some err)
    then have "sw1 = s1" using assms op b1 by (simp add: EndMacro_def)
    then show ?thesis
      using writeBuffered_frame [OF b1] writeBuffered_failed [OF b1 [unfolded Some]] by simp
  next
    case None
    note f1 = writeBuffered_frame [OF b1] writeBuffered_ok [OF b1 [unfolded None]]
    obtain e2 s2 where b2: "writeString (indentf ''return ctx\<newline>'') s1 = (e2, s2)" by force
    note f2 = writeString_frame [OF b2]
    obtain e3 b where b3: "Flush (w s2) = (e3, b)" by force
    have "sw1 = s2 \<or> sw1 = s2\<lparr>currentMacro := [], w := b\<rparr>"
      using assms op b1 None b2 b3 by (cases e2) (simp_all add: EndMacro_def Let_def)
    then show ?thesis using f1 f2 by auto
  qed
qed

lemma stack_inv_same:
  assumes "stack_inv q sw older"
    and "dirStack sw1 = dirStack sw" and "currentMacro sw1 = currentMacro sw"
    and "buf sw1 = buf sw \<or> buf sw1 = []"
  shows "stack_inv q sw1 (min older (length (dirStack sw1)))"
proof -
  have m: "min older (length (dirStack sw1)) = older"
    using assms(1,2) by (simp add: stack_inv_def)
  show ?thesis
  proof (cases "buf sw1 = buf sw")
    case True
    then show ?thesis using assms(1,2,3) m by (simp add: stack_inv_def)
  next
    case False
    then have "buf sw1 = map (pushDirString q) (drop (length (dirStack sw1)) (dirStack sw1))"
      using assms(4) by simp
    then show ?thesis
      unfolding stack_inv_def m using assms(1,2) False
      by (auto simp: stack_inv_def)
  qed
qed


lemma BeginMacro_fields:
  "BeginMacro name sw = (None, sw') \<Longrightarrow>
   buf sw' = buf sw @ [''def '' @ currentMacro sw' @ ''(ctx):\<newline>'']
   \<and> dirStack sw' = dirStack sw \<and> w sw' = w sw"
  by (auto simp: BeginMacro_def split: if_splits sum.splits)

lemma stack_inv_Begin:
  assumes "stack_inv q sw older" and "BeginMacro name sw = (e, sw1)"
  shows "stack_inv q sw1
           (if e = None then length (dirStack sw1) else min older (length (dirStack sw1)))"
proof (cases e)
  case (Some err)
  then have "sw1 = sw" using assms(2) BeginMacro_failed by simp
  then show ?thesis using assms(1) Some stack_inv_same [of q sw older sw] by simp
next
  case None
  note f = BeginMacro_ok [OF assms(2) [unfolded None]]
  have b: "buf sw = []" using assms(1) f by (simp add: stack_inv_def)
  have "buf sw1 = [''def '' @ currentMacro sw1 @ ''(ctx):\<newline>'']"
    and "dirStack sw1 = dirStack sw"
    using BeginMacro_fields [OF assms(2) [unfolded None]] b by simp_all
  then show ?thesis using None f by (simp add: stack_inv_def)
qed

lemma stack_inv_End:
  assumes "stack_inv q sw older" and "EndMacro sw = (e, sw1)"
  shows "stack_inv q sw1 (min older (length (dirStack sw1)))"
proof -
  note c = EndMacro_cases [OF assms(2)]
  show ?thesis
  proof (cases "currentMacro sw1 = currentMacro sw")
    case True
    then show ?thesis using stack_inv_same [OF assms(1), of sw1] c by auto
  next
    case False
    then have "currentMacro sw1 = []" and "buf sw1 = []" using c by auto
    then show ?thesis using assms(1) c by (simp add: stack_inv_def)
  qed
qed

lemma stack_inv_Write:
  assumes "stack_inv q sw older" and "WriteCommand m cmd args sw = (e, sw1)"
  shows "stack_inv q sw1 (min older (length (dirStack sw1)))"
  using stack_inv_same [OF assms(1), of sw1] WriteCommand_frame [OF assms(2)] by simp

lemma stack_inv_Push:
  assumes "stack_inv q sw older" and "PushDirectory q path sw = (e, sw1)"
  shows "stack_inv q sw1 (min older (length (dirStack sw1)))"
proof (cases "currentMacro sw = []")
  case True
  then have "sw1 = sw" using assms(2) by (simp add: PushDirectory_def)
  then show ?thesis using stack_inv_same [OF assms(1), of sw] by simp
next
  case op: False
  have s1: "sw1 = sw\<lparr>dirStack := dirStack sw @ [path], buf := buf sw @ [pushDirString q path]\<rparr>"
    using assms(2) PushDirectory_open [OF op, of q path] by simp
  have le: "older \<le> length (dirStack sw)"
    using assms(1) by (simp add: stack_inv_def)
  have m: "min older (length (dirStack sw1)) = older"
    using s1 le by simp
  have "buf sw = (''def '' @ currentMacro sw @ ''(ctx):\<newline>'')
                       # map (pushDirString q) (drop older (dirStack sw))
      \<or> (\<exists>k. older \<le> k \<and> k \<le> length (dirStack sw)
             \<and> buf sw = map (pushDirString q) (drop k (dirStack sw)))"
    using assms(1) op by (simp add: stack_inv_def)
  then show ?thesis
  proof
    assume "buf sw = (''def '' @ currentMacro sw @ ''(ctx):\<newline>'')
                       # map (pushDirString q) (drop older (dirStack sw))"
    then show ?thesis
      unfolding m using s1 le op by (simp add: stack_inv_def)
  next
    assume "\<exists>k. older \<le> k \<and> k \<le> length (dirStack sw)
             \<and> buf sw = map (pushDirString q) (drop k (dirStack sw))"
    then obtain k where k: "older \<le> k" "k \<le> length (dirStack sw)"
      "buf sw = map (pushDirString q) (drop k (dirStack sw))" by blast
    then have "buf sw1 = map (pushDirString q) (drop k (dirStack sw1))"
      and "k \<le> length (dirStack sw1)"
      using s1 by simp_all
    then show ?thesis
      unfolding m using s1 le op k(1) by (auto simp: stack_inv_def)
  qed
qed

lemma last_enter:
  "k < length ds \<Longrightarrow> last (map f (drop k ds)) = f (last ds)"
  by (simp add: last_map last_drop)

lemma butlast_enter:
  "butlast (map f (drop k ds)) = map f (drop k (butlast ds))"
  by (simp add: map_butlast [symmetric] butlast_drop)


lemma stack_inv_Pop:
  assumes inv: "stack_inv q sw older" and pd: "PopDirectory q sw = ((path, e), sw1)"
  shows "stack_inv q sw1 (min older (length (dirStack sw1)))"
proof (cases "currentMacro sw = [] \<or> dirStack sw = []")
  case True
  then have "sw1 = sw" using pd by (auto simp: PopDirectory_def split: if_splits)
  then show ?thesis using stack_inv_same [OF inv, of sw] by simp
next
  case False
  then have op: "currentMacro sw \<noteq> []" and ne: "dirStack sw \<noteq> []" by simp_all
  let ?ds = "dirStack sw"
  let ?hdr = "''def '' @ currentMacro sw @ ''(ctx):\<newline>''"
  let ?elide = "buf sw \<noteq> [] \<and> last (buf sw) = pushDirString q (last ?ds)"
  have le: "older \<le> length ?ds"
    using inv by (simp add: stack_inv_def)
  have len: "length (butlast ?ds) = length ?ds - 1" by simp
  have pos: "0 < length ?ds" using ne by simp
  have shape: "buf sw = ?hdr # map (pushDirString q) (drop older ?ds)
      \<or> (\<exists>k. older \<le> k \<and> k \<le> length ?ds \<and> buf sw = map (pushDirString q) (drop k ?ds))"
    using inv op by (simp add: stack_inv_def)
  have fields: "dirStack sw1 = butlast ?ds \<and> currentMacro sw1 = currentMacro sw
      \<and> buf sw1 = (if ?elide then butlast (buf sw) else buf sw)"
  proof (cases ?elide)
    case True
    then show ?thesis using PopDirectory_open [OF op ne, of q] pd by simp
  next
    case False
    obtain e2 sw2 where x: "writeString exitStatement (sw\<lparr>dirStack := butlast ?ds\<rparr>) = (e2, sw2)"
      by force
    have "sw1 = sw2" using PopDirectory_open [OF op ne, of q] pd False x by auto
    then show ?thesis using writeString_frame [OF x] False by auto
  qed
  from shape show ?thesis
  proof
    assume h: "buf sw = ?hdr # map (pushDirString q) (drop older ?ds)"
    show ?thesis
    proof (cases "older < length ?ds")
      case True
      then have l: "last (buf sw) = pushDirString q (last ?ds)"
        using h last_enter [OF True, of "pushDirString q"] by simp
      have "butlast (buf sw) = ?hdr # map (pushDirString q) (drop older (butlast ?ds))"
        using h True butlast_enter [of "pushDirString q" older ?ds] by simp
      moreover have "min older (length (dirStack sw1)) = older"
        using fields True by simp
      ultimately show ?thesis
        using fields h l op True by (simp add: stack_inv_def)
    next
      case False
      then have o: "older = length ?ds" using le by simp
      then have b: "buf sw = [?hdr]" using h by simp
      then have "\<not> ?elide" using header_is_no_enter [of "currentMacro sw" q "last ?ds"] by simp
      moreover have "min older (length (dirStack sw1)) = length ?ds - 1"
        using fields o by simp
      ultimately show ?thesis
        using fields b op by (simp add: stack_inv_def)
    qed
  next
    assume "\<exists>k. older \<le> k \<and> k \<le> length ?ds \<and> buf sw = map (pushDirString q) (drop k ?ds)"
    then obtain k where k: "older \<le> k" "k \<le> length ?ds"
      "buf sw = map (pushDirString q) (drop k ?ds)" by blast
    show ?thesis
    proof (cases "k < length ?ds")
      case True
      then have "?elide"
        using k(3) last_enter [OF True, of "pushDirString q"] by simp
      then have "buf sw1 = map (pushDirString q) (drop k (dirStack sw1))"
        using fields k(3) butlast_enter [of "pushDirString q" k ?ds] by simp
      moreover have "min older (length (dirStack sw1)) \<le> k" and "k \<le> length (dirStack sw1)"
        using fields k(1) True by simp_all
      ultimately show ?thesis
        using fields op by (auto simp: stack_inv_def)
    next
      case False
      then have b: "buf sw = []" using k by simp
      then have b1: "buf sw1 = []"
        using fields by simp
      have "\<exists>j. min older (length (dirStack sw1)) \<le> j \<and> j \<le> length (dirStack sw1)
              \<and> buf sw1 = map (pushDirString q) (drop j (dirStack sw1))"
        using b1 by (intro exI [of _ "length (dirStack sw1)"]) simp
      then show ?thesis
        by (simp add: stack_inv_def b1)
    qed
  qed
qed

lemma stack_inv_step:
  assumes "stack_inv q sw older" and "step q m c sw = (e, sw1)"
  shows "stack_inv q sw1
           (if is_begin c \<and> e = None then length (dirStack sw1)
            else min older (length (dirStack sw1)))"
proof (cases c)
  case (CallBeginMacro name)
  then show ?thesis using stack_inv_Begin [OF assms(1), of name e sw1] assms(2) by simp
next
  case CallEndMacro
  then show ?thesis using stack_inv_End [OF assms(1), of e sw1] assms(2) by simp
next
  case (CallPushDirectory path)
  then show ?thesis using stack_inv_Push [OF assms(1), of path e sw1] assms(2) by simp
next
  case CallPopDirectory
  then obtain path where "PopDirectory q sw = ((path, e), sw1)"
    using assms(2) by (auto split: prod.splits)
  then show ?thesis using stack_inv_Pop [OF assms(1)] CallPopDirectory by simp
next
  case (CallWriteCommand cmd args)
  then show ?thesis using stack_inv_Write [OF assms(1), of m cmd args e sw1] assms(2) by simp
qed

lemma stack_inv_tracked:
  "stack_inv q sw older \<Longrightarrow> tracked q m cs (sw, older) = (sw', older') \<Longrightarrow>
   stack_inv q sw' older'"
proof (induction cs arbitrary: sw older)
  case Nil
  then show ?case by simp
next
  case (Cons c cs)
  obtain e sw1 where s: "step q m c sw = (e, sw1)" by force
  let ?o1 = "if is_begin c \<and> e = None then length (dirStack sw1)
             else min older (length (dirStack sw1))"
  have "stack_inv q sw1 ?o1"
    using stack_inv_step [OF Cons.prems(1) s] .
  moreover have "tracked q m cs (sw1, ?o1) = (sw', older')"
    using Cons.prems(2) s by simp
  ultimately show ?case using Cons.IH by blast
qed

lemma stack_inv_new: "stack_inv q (NewStarlarkWriter b) 0"
  by (simp add: stack_inv_def NewStarlarkWriter_def)

text \<open>
  Claim C4. After any sequence of calls on a new writer that leaves on the directory
  stack no entry older than the open macro, the pending buffer is the enter statements of
  a suffix of the stack, in order, alone or after the header of the macro; and if a
  macro is open, the stack is not empty and the last pending statement is not the enter
  statement of the last entry, so that \<open>PopDirectory\<close> would write the exit statement,
  then the buffer is empty.
\<close>

theorem pending_enters_follow_stack:
  assumes "tracked q m cs (NewStarlarkWriter b, 0) = (sw, 0)"
  shows "(\<exists>k. buf sw = map (pushDirString q) (drop k (dirStack sw))
            \<or> buf sw = (''def '' @ currentMacro sw @ ''(ctx):\<newline>'')
                         # map (pushDirString q) (drop k (dirStack sw)))
       \<and> (currentMacro sw \<noteq> [] \<and> dirStack sw \<noteq> []
            \<and> \<not> (buf sw \<noteq> [] \<and> last (buf sw) = pushDirString q (last (dirStack sw)))
          \<longrightarrow> buf sw = [])"
proof -
  have inv: "stack_inv q sw 0"
    using stack_inv_tracked [OF stack_inv_new assms] .
  show ?thesis
  proof (cases "currentMacro sw = []")
    case True
    then have "buf sw = map (pushDirString q) (drop (length (dirStack sw)) (dirStack sw))"
      using inv by (simp add: stack_inv_def)
    then show ?thesis using True by blast
  next
    case op: False
    have "buf sw = (''def '' @ currentMacro sw @ ''(ctx):\<newline>'')
                       # map (pushDirString q) (drop 0 (dirStack sw))
      \<or> (\<exists>k. k \<le> length (dirStack sw) \<and> buf sw = map (pushDirString q) (drop k (dirStack sw)))"
      using inv op by (simp add: stack_inv_def)
    then show ?thesis
    proof
      assume h: "buf sw = (''def '' @ currentMacro sw @ ''(ctx):\<newline>'')
                       # map (pushDirString q) (drop 0 (dirStack sw))"
      have l: "dirStack sw \<noteq> [] \<Longrightarrow>
          buf sw \<noteq> [] \<and> last (buf sw) = pushDirString q (last (dirStack sw))"
        using h by (simp add: last_map)
      have "\<exists>k. buf sw = map (pushDirString q) (drop k (dirStack sw))
            \<or> buf sw = (''def '' @ currentMacro sw @ ''(ctx):\<newline>'')
                         # map (pushDirString q) (drop k (dirStack sw))"
        using h by blast
      then show ?thesis using l by blast
    next
      assume "\<exists>k. k \<le> length (dirStack sw) \<and> buf sw = map (pushDirString q) (drop k (dirStack sw))"
      then obtain k where k: "k \<le> length (dirStack sw)"
        "buf sw = map (pushDirString q) (drop k (dirStack sw))" by blast
      have "k < length (dirStack sw) \<Longrightarrow>
          buf sw \<noteq> [] \<and> last (buf sw) = pushDirString q (last (dirStack sw))"
        using k(2) last_enter [of k "dirStack sw" "pushDirString q"] by simp
      moreover have "\<not> k < length (dirStack sw) \<Longrightarrow> buf sw = []"
        using k by simp
      ultimately show ?thesis using k(2) by blast
    qed
  qed
qed


theorem pending_enters_follow_stack_witness:
  "tracked plainQuote plainMarshal
       [CallBeginMacro ''gen'', CallPushDirectory ''lib'',
        CallWriteCommand ''cc_library'' [GoString ''foo'']]
       (NewStarlarkWriter emptyStream, 0)
     = (\<lparr>w = \<lparr>accepted = ''def gen(ctx):\<newline>''
                  @ ''    ctx = ctx.push_directory(ctx, \"lib\")\<newline>''
                  @ ''    ctx.cc_library(ctx, \"foo\")\<newline>'', remaining = None\<rparr>,
         buf = [], currentMacro = ''gen'', dirStack = [''lib'']\<rparr>, 0)
   \<and> buf \<lparr>w = \<lparr>accepted = ''def gen(ctx):\<newline>''
                  @ ''    ctx = ctx.push_directory(ctx, \"lib\")\<newline>''
                  @ ''    ctx.cc_library(ctx, \"foo\")\<newline>'', remaining = None\<rparr>,
         buf = [], currentMacro = ''gen'', dirStack = [''lib'']\<rparr> = []"
proof -
  let ?sw = "\<lparr>w = \<lparr>accepted = ''def gen(ctx):\<newline>''
                  @ ''    ctx = ctx.push_directory(ctx, \"lib\")\<newline>''
                  @ ''    ctx.cc_library(ctx, \"foo\")\<newline>'', remaining = None\<rparr>,
         buf = [], currentMacro = ''gen'', dirStack = [''lib'']\<rparr>"
  have t: "tracked plainQuote plainMarshal
       [CallBeginMacro ''gen'', CallPushDirectory ''lib'',
        CallWriteCommand ''cc_library'' [GoString ''foo'']]
       (NewStarlarkWriter emptyStream, 0) = (?sw, 0)"
    by (simp add: run_defs)
  have br: "currentMacro ?sw \<noteq> [] \<and> dirStack ?sw \<noteq> []
      \<and> \<not> (buf ?sw \<noteq> [] \<and> last (buf ?sw) = pushDirString plainQuote (last (dirStack ?sw)))"
    by simp
  show ?thesis
    using pending_enters_follow_stack [OF t] t br by blast
qed

text \<open>
  Claim C1 says that \<open>PopDirectory\<close> writes the pending statements before the exit
  statement. A directory is entered in the macro \<open>a\<close> and left in the macro \<open>b\<close>: the exit
  statement is in the output, after the return statement of \<open>a\<close>, while the header of \<open>b\<close>
  is still pending.
\<close>

theorem PopDirectory_before_pending_header:
  "run plainQuote plainMarshal
     [CallBeginMacro ''a'', CallPushDirectory ''x'', CallEndMacro, CallBeginMacro ''b'',
      CallPopDirectory]
     (NewStarlarkWriter emptyStream)
   = Inr \<lparr>w = \<lparr>accepted = ''def a(ctx):\<newline>''
                  @ ''    ctx = ctx.push_directory(ctx, \"x\")\<newline>''
                  @ ''    return ctx\<newline>''
                  @ ''    ctx = ctx.pop_directory(ctx)\<newline>'', remaining = None\<rparr>,
          buf = [''def b(ctx):\<newline>''], currentMacro = ''b'', dirStack = []\<rparr>"
  by (simp add: run_defs)

end
